theory Spec2Isabelle
  imports Main "HOL-Library.Multiset"
begin

section \<open>Strings of the host language\<close>

text \<open>
  A JavaScript string is a finite sequence of UTF-16 code units. The fixture texts of the
  site contain code units above 255 (the dash U+2014), so a code unit is a natural number
  and a string is a list of them. \<open>str\<close> reads an ASCII literal as such a string.
\<close>

type_synonym jsstring = "nat list"

definition str :: "string \<Rightarrow> jsstring" where
  "str s = map of_char s"

text \<open>
  \<open>String.prototype.trim\<close> removes WhiteSpace and LineTerminator code points from both
  ends: TAB, LF, VT, FF, CR, SP, NBSP, U+1680, U+2000..U+200A, U+2028, U+2029, U+202F,
  U+205F, U+3000 and U+FEFF.
\<close>

definition isWhiteSpace :: "nat \<Rightarrow> bool" where
  "isWhiteSpace c =
     (c = 9 \<or> c = 10 \<or> c = 11 \<or> c = 12 \<or> c = 13 \<or> c = 32 \<or> c = 160 \<or> c = 5760
      \<or> (8192 \<le> c \<and> c \<le> 8202) \<or> c = 8232 \<or> c = 8233 \<or> c = 8239 \<or> c = 8287
      \<or> c = 12288 \<or> c = 65279)"

definition trim :: "jsstring \<Rightarrow> jsstring" where
  "trim s = rev (dropWhile isWhiteSpace (rev (dropWhile isWhiteSpace s)))"

text \<open>
  \<open>String.prototype.toLowerCase\<close> is the lower-case mapping of Unicode, a function of
  the host that the repository does not contain: it sends U+0141 to U+0142, the Kelvin sign
  U+212A to \<open>k\<close>, and U+0130 to two code units. The mapping is the parameter
  \<open>caseMap\<close> of the model, so that what is proved holds whatever it is; all the model
  fixes is that the empty string is its own lower case.
\<close>

definition toLowerCase :: "(jsstring \<Rightarrow> jsstring) \<Rightarrow> jsstring \<Rightarrow> jsstring" where
  "toLowerCase caseMap s = (if s = [] then [] else caseMap s)"

text \<open>
  What is known of the mapping on the texts of the site: on a string of code units below 256
  (Basic Latin and Latin-1) or dashes U+2014 it works unit by unit, the letters A..Z and the
  Latin-1 capitals U+00C0..U+00DE (without the multiplication sign U+00D7) moving up by 32
  and every other unit staying. \<open>latin1_case\<close> says of a case mapping that it does so.
\<close>

definition lowerUnit :: "nat \<Rightarrow> nat" where
  "lowerUnit c =
     (if (65 \<le> c \<and> c \<le> 90) \<or> (192 \<le> c \<and> c \<le> 222 \<and> c \<noteq> 215) then c + 32 else c)"

definition lowerLatin1 :: "jsstring \<Rightarrow> jsstring" where
  "lowerLatin1 s = map lowerUnit s"

definition latin1_case :: "(jsstring \<Rightarrow> jsstring) \<Rightarrow> bool" where
  "latin1_case caseMap \<longleftrightarrow>
     (\<forall>s. (\<forall>c\<in>set s. c < 256 \<or> c = 8212) \<longrightarrow> caseMap s = lowerLatin1 s)"

text \<open>
  \<open>String.prototype.includes\<close>: the argument occurs as a contiguous run of code units;
  the search tries every start position from the left.
\<close>

fun startsWith :: "jsstring \<Rightarrow> jsstring \<Rightarrow> bool" where
  "startsWith s [] = True"
| "startsWith [] (p # ps) = False"
| "startsWith (c # cs) (p # ps) = (c = p \<and> startsWith cs ps)"

fun includes_js :: "jsstring \<Rightarrow> jsstring \<Rightarrow> bool" where
  "includes_js [] p = (p = [])"
| "includes_js (c # cs) p = (startsWith (c # cs) p \<or> includes_js cs p)"

text \<open>
  \<open>s.split("/")\<close> with a one-unit separator: the pieces between the separators, empty
  pieces kept; the empty string gives one empty piece.
\<close>

fun split :: "nat \<Rightarrow> jsstring \<Rightarrow> jsstring list" where
  "split sep [] = [[]]"
| "split sep (c # cs) =
     (if c = sep then [] # split sep cs
      else (case split sep cs of
              [] \<Rightarrow> [[c]]
            | w # ws \<Rightarrow> (c # w) # ws))"

text \<open>The relational operator \<open><\<close> on two strings: code-unit lexicographic order.\<close>

fun str_lt :: "jsstring \<Rightarrow> jsstring \<Rightarrow> bool" where
  "str_lt [] [] = False"
| "str_lt [] (y # ys) = True"
| "str_lt (x # xs) [] = False"
| "str_lt (x # xs) (y # ys) = (x < y \<or> (x = y \<and> str_lt xs ys))"

text \<open>An array read \<open>xs[i]\<close>: \<open>undefined\<close> (here \<open>None\<close>) outside the array.\<close>

definition index :: "'a list \<Rightarrow> nat \<Rightarrow> 'a option" where
  "index xs i = (if i < length xs then Some (xs ! i) else None)"


section \<open>Router\<close>

text \<open>
  The five pages. \<open>BlogPost\<close> receives the property \<open>slug = parts[1]\<close>, which for
  JavaScript may be \<open>undefined\<close>; the model keeps that possibility in the type.
\<close>

datatype view = Home | About | Contact | Blog | BlogPost "jsstring option"

text \<open>\<open>hash.replace(/^#\<bsol>//, "")\<close>: one leading \<open>#/\<close> is removed, nothing else.\<close>

fun replace_root :: "jsstring \<Rightarrow> jsstring" where
  "replace_root (a # b # rest) = (if a = 35 \<and> b = 47 then rest else a # b # rest)"
| "replace_root s = s"

definition parts_of :: "jsstring \<Rightarrow> jsstring list" where
  "parts_of hash =
     filter (\<lambda>s. s \<noteq> []) (split 47 (replace_root (if hash = [] then str ''#/'' else hash)))"

definition RouteView :: "jsstring \<Rightarrow> view" where
  "RouteView hash =
     (let parts = parts_of hash;
          page = (case index parts 0 of None \<Rightarrow> [] | Some p \<Rightarrow> if p = [] then [] else p)
      in if page = str ''about'' then About
         else if page = str ''contact'' then Contact
         else if page = str ''blog'' \<and> length parts \<ge> 2 then BlogPost (index parts 1)
         else if page = str ''blog'' then Blog
         else Home)"

text \<open>
  The router as the specification words it: segments of the token after a single leading
  \<open>#/\<close>, cut at every \<open>/\<close>, empty ones dropped; then a dispatch on the first segment.
\<close>

function segments :: "jsstring \<Rightarrow> jsstring list" where
  "segments s =
     (if s = [] then []
      else (let w = takeWhile (\<lambda>c. c \<noteq> 47) s;
                r = drop 1 (dropWhile (\<lambda>c. c \<noteq> 47) s)
            in (if w = [] then [] else [w]) @ segments r))"
  by pat_completeness auto
termination
  apply (relation "measure length")
   apply simp
  subgoal for s x xa
    using length_dropWhile_le [of "\<lambda>c. c \<noteq> 47" s] by (cases s) auto
  done

declare segments.simps [simp del]

definition strip_root :: "jsstring \<Rightarrow> jsstring" where
  "strip_root t = (if take 2 t = str ''#/'' then drop 2 t else t)"

definition resolve :: "jsstring \<Rightarrow> view" where
  "resolve t =
     (case segments (strip_root t) of
        [] \<Rightarrow> Home
      | s1 # rest \<Rightarrow>
          if s1 = str ''about'' then About
          else if s1 = str ''contact'' then Contact
          else if s1 = str ''blog'' then
            (case rest of [] \<Rightarrow> Blog | s2 # _ \<Rightarrow> BlogPost (Some s2))
          else Home)"


section \<open>Blog posts\<close>

record post =
  slug :: jsstring
  title :: jsstring
  date :: jsstring
  readTime :: jsstring
  excerpt :: jsstring
  tags :: "jsstring list"
  content :: "jsstring list"

definition BLOG_POSTS :: "post list" where
  "BLOG_POSTS =
    [\<lparr>slug = str ''smile-design-first-principles'',
      title = str ''Smile Design: First Principles for Natural Results'',
      date = str ''2025-11-18'',
      readTime = str ''5 min'',
      excerpt = str ''How we align facial aesthetics, tooth proportions, and function'' @ [8212]
        @ str ''so your result looks effortless and lasts.'',
      tags = [str ''Smile Design'', str ''Cosmetic''],
      content =
       [str ''Great cosmetic dentistry starts with restraint. The goal is not a new smile''
          @ [8212] @ str ''it is *your* smile, refined.'',
        str ''A robust plan considers facial midline, lip dynamics, tooth display at rest, and occlusal function. The aesthetic layer is built on a stable foundation.'',
        str ''Photography and digital planning help remove guesswork, enabling you to preview direction and make informed decisions before any irreversible step.'',
        str ''Conservative options are prioritized: alignment + whitening + bonding can often deliver dramatic change while preserving tooth structure.'']\<rparr>,
     \<lparr>slug = str ''composite-bonding-aftercare'',
      title = str ''Composite Bonding Aftercare: Keeping Your Finish Bright'',
      date = str ''2025-10-02'',
      readTime = str ''4 min'',
      excerpt = str ''Small habits protect your investment'' @ [8212]
        @ str ''simple routines that keep bonding smooth, glossy, and stain-resistant.'',
      tags = [str ''Bonding'', str ''Aftercare''],
      content =
       [str ''Composite bonding is both art and material science. With the right maintenance, the surface can stay glossy for years.'',
        str ''Use a soft brush, avoid abrasive whitening toothpaste, and consider a night guard if you clench or grind.'',
        str ''Regular hygiene appointments reduce staining and keep margins clean, which is critical for long-term aesthetics.'',
        str ''If you notice dullness, chips, or staining, small refinements can often restore the finish without major work.'']\<rparr>,
     \<lparr>slug = str ''alignment-whitening-bonding-pathway'',
      title = str ''A Conservative Makeover: Alignment, Whitening, then Bonding'',
      date = str ''2025-08-26'',
      readTime = str ''6 min'',
      excerpt = str ''Why sequencing matters'' @ [8212]
        @ str ''using orthodontics and whitening to minimize restoration size and maximize longevity.'',
      tags = [str ''Orthodontics'', str ''Whitening'', str ''Planning''],
      content =
       [str ''Sequencing is a conversion of complexity into clarity. We start with tooth position, then color, then shape.'',
        str ''By aligning first, bonding can be thinner and more durable. Whitening establishes a stable shade, so restorations match and blend.'',
        str ''The result is typically more natural and more conservative than jumping straight to larger restorations.'',
        str ''A well-planned pathway is often faster than a reactive one'' @ [8212]
          @ str ''because it reduces rework and compromises.'']\<rparr>]"


section \<open>Array.prototype.sort\<close>

text \<open>
  The sort of the host is not part of the repository. It is modelled as V8 (Chrome, Node)
  runs it on an array of fewer than 64 elements, where the whole array is one run of its
  merge sort: an array of fewer than two elements is left alone; otherwise
  \<open>CountAndMakeRun\<close> takes the longest prefix that is strictly descending or else
  non-descending for the comparator, each element compared with its predecessor as
  \<open>comparefn(current, previous)\<close>, and reverses a descending prefix; then
  \<open>BinaryInsertionSort\<close> inserts every later element into the sorted prefix at the
  place a binary search with \<open>comparefn(pivot, prefix[mid]) < 0\<close> finds. The model
  applies the same two steps to an array of any length.
\<close>

function binarySearch :: "('a \<Rightarrow> 'a \<Rightarrow> int) \<Rightarrow> 'a \<Rightarrow> 'a list \<Rightarrow> nat \<Rightarrow> nat \<Rightarrow> nat" where
  "binarySearch comparefn pivot arr left right =
     (if left < right then
        (let mid = left + (right - left) div 2;
             order = comparefn pivot (arr ! mid)
         in if order < 0 then binarySearch comparefn pivot arr left mid
            else binarySearch comparefn pivot arr (mid + 1) right)
      else left)"
  by pat_completeness auto
termination
  by (relation "measure (\<lambda>(comparefn, pivot, arr, left, right). right - left)") auto

declare binarySearch.simps [simp del]

definition insertPivot :: "('a \<Rightarrow> 'a \<Rightarrow> int) \<Rightarrow> 'a list \<Rightarrow> 'a \<Rightarrow> 'a list" where
  "insertPivot comparefn prefix pivot =
     (let left = binarySearch comparefn pivot prefix 0 (length prefix)
      in take left prefix @ pivot # drop left prefix)"

fun runTail :: "('a \<Rightarrow> 'a \<Rightarrow> int) \<Rightarrow> bool \<Rightarrow> 'a \<Rightarrow> 'a list \<Rightarrow> nat" where
  "runTail comparefn isDescending previous [] = 0"
| "runTail comparefn isDescending previous (current # rest) =
     (let order = comparefn current previous
      in if isDescending then
           (if order \<ge> 0 then 0 else Suc (runTail comparefn isDescending current rest))
         else
           (if order < 0 then 0 else Suc (runTail comparefn isDescending current rest)))"

definition sort_js :: "('a \<Rightarrow> 'a \<Rightarrow> int) \<Rightarrow> 'a list \<Rightarrow> 'a list" where
  "sort_js comparefn arr =
     (case arr of
        a0 # a1 # rest \<Rightarrow>
          (let isDescending = comparefn a1 a0 < 0;
               runLength = 2 + runTail comparefn isDescending a1 rest;
               run = (if isDescending then rev (take runLength arr) else take runLength arr)
           in foldl (insertPivot comparefn) run (drop runLength arr))
      | _ \<Rightarrow> arr)"

text \<open>
  What links a comparator to an order \<open>le\<close> on the elements so that the sort
  sorts by it: \<open>le\<close> is transitive, a negative comparison puts the first argument
  first, any other outcome lets the second argument stand first.
\<close>

definition orders_by :: "('a \<Rightarrow> 'a \<Rightarrow> int) \<Rightarrow> ('a \<Rightarrow> 'a \<Rightarrow> bool) \<Rightarrow> bool" where
  "orders_by comparefn le \<longleftrightarrow>
     (\<forall>a b c. le a b \<longrightarrow> le b c \<longrightarrow> le a c)
     \<and> (\<forall>a b. comparefn a b < 0 \<longrightarrow> le a b)
     \<and> (\<forall>a b. \<not> comparefn a b < 0 \<longrightarrow> le b a)"


section \<open>Blog list: search and tag filter\<close>

text \<open>The comparator handed to the sort: \<open>(a, b) => (a.date < b.date ? 1 : -1)\<close>.\<close>

definition dateCmp :: "post \<Rightarrow> post \<Rightarrow> int" where
  "dateCmp a b = (if str_lt (date a) (date b) then 1 else - 1)"

definition hitQ :: "(jsstring \<Rightarrow> jsstring) \<Rightarrow> jsstring \<Rightarrow> post \<Rightarrow> bool" where
  "hitQ caseMap query p =
     (query = []
      \<or> includes_js (toLowerCase caseMap (title p)) query
      \<or> includes_js (toLowerCase caseMap (excerpt p)) query
      \<or> list_ex (\<lambda>t. includes_js (toLowerCase caseMap t) query) (tags p))"

definition hitT :: "jsstring \<Rightarrow> post \<Rightarrow> bool" where
  "hitT tag p = (tag = str ''all'' \<or> tag \<in> set (tags p))"

definition filtered ::
  "(jsstring \<Rightarrow> jsstring) \<Rightarrow> post list \<Rightarrow> jsstring \<Rightarrow> jsstring \<Rightarrow> post list" where
  "filtered caseMap items q tag =
     (let query = toLowerCase caseMap (trim q)
      in sort_js dateCmp (filter (\<lambda>p. hitQ caseMap query p \<and> hitT tag p) items))"


text \<open>
  The same computation on a store of arrays, an array being known by its address (its
  position in the store). \<open>Array.prototype.filter\<close> allocates a fresh array for its
  result; \<open>sort\<close> then sorts that array in place and returns it. The post objects are
  shared between the arrays, and neither call writes to them, so the model keeps them as
  values. A read through an address that the store does not hold gives \<open>None\<close>.
\<close>

type_synonym store = "post list list"

definition alloc :: "store \<Rightarrow> post list \<Rightarrow> store \<times> nat" where
  "alloc h arr = (h @ [arr], length h)"

definition filtered_st ::
  "(jsstring \<Rightarrow> jsstring) \<Rightarrow> store \<Rightarrow> nat \<Rightarrow> jsstring \<Rightarrow> jsstring \<Rightarrow> (store \<times> nat) option" where
  "filtered_st caseMap h src q tag =
     (case index h src of
        None \<Rightarrow> None
      | Some items \<Rightarrow>
          (let query = toLowerCase caseMap (trim q);
               (h1, r) = alloc h (filter (\<lambda>p. hitQ caseMap query p \<and> hitT tag p) items);
               h2 = h1[r := sort_js dateCmp (h1 ! r)]
           in Some (h2, r)))"


section \<open>Blog list: the tag selector\<close>

text \<open>
  A \<open>Set\<close> keeps its members in insertion order, so it is a list without repetition;
  \<open>add\<close> leaves the set alone when the value is in it already. \<open>localeCompare\<close> is
  the collation of the host and its locale; it is a parameter of the model.
\<close>

definition set_add :: "'a list \<Rightarrow> 'a \<Rightarrow> 'a list" where
  "set_add t x = (if x \<in> set t then t else t @ [x])"

definition Blog_tags :: "(jsstring \<Rightarrow> jsstring \<Rightarrow> int) \<Rightarrow> post list \<Rightarrow> jsstring list" where
  "Blog_tags localeCompare items =
     (let t = foldl (\<lambda>t p. foldl set_add t (tags p)) [] items
      in str ''all'' # sort_js (\<lambda>a b. localeCompare a b) t)"

text \<open>
  A consistent comparison function in the sense of the language standard: equality by the
  comparator is reflexive, symmetric and transitive, and so are its two strict outcomes
  transitive.
\<close>

definition consistent :: "('a \<Rightarrow> 'a \<Rightarrow> int) \<Rightarrow> bool" where
  "consistent comparefn \<longleftrightarrow>
     (\<forall>a. comparefn a a = 0)
     \<and> (\<forall>a b. comparefn a b = 0 \<longrightarrow> comparefn b a = 0)
     \<and> (\<forall>a b c. comparefn a b = 0 \<and> comparefn b c = 0 \<longrightarrow> comparefn a c = 0)
     \<and> (\<forall>a b c. comparefn a b < 0 \<and> comparefn b c < 0 \<longrightarrow> comparefn a c < 0)
     \<and> (\<forall>a b c. comparefn a b > 0 \<and> comparefn b c > 0 \<longrightarrow> comparefn a c > 0)"

text \<open>
  What is known of the collation on strings of ASCII letters and spaces, where the locales
  of Latin script follow the root collation of Unicode: two strings are compared without
  regard to case first, unit by unit in alphabetical order, the space before every letter
  and a proper prefix before the longer string; two strings that differ in case only are
  ordered at the first place where the case differs, the small letter first. So
  \<open>veneers\<close> comes before \<open>Whitening\<close>, which the order of code units has the other
  way round.
\<close>

definition caseBit :: "nat \<Rightarrow> nat" where
  "caseBit c = (if 65 \<le> c \<and> c \<le> 90 then 1 else 0)"

definition collate :: "jsstring \<Rightarrow> jsstring \<Rightarrow> int" where
  "collate a b =
     (if str_lt (lowerLatin1 a) (lowerLatin1 b) then - 1
      else if str_lt (lowerLatin1 b) (lowerLatin1 a) then 1
      else if str_lt (map caseBit a) (map caseBit b) then - 1
      else if str_lt (map caseBit b) (map caseBit a) then 1
      else 0)"

text \<open>
  "Sorted lexicographically" as the specification words it: by the order of code units, no
  string before one that is smaller.
\<close>

definition sorted_lexicographically :: "jsstring list \<Rightarrow> bool" where
  "sorted_lexicographically ts = sorted_wrt (\<lambda>a b. \<not> str_lt b a) ts"

section \<open>Single post page\<close>

text \<open>
  What \<open>BlogPost\<close> renders: the article, or the card "Post not found" whose only
  control is the button "Back to Blog" with the link target kept here.
\<close>

datatype post_page = PostNotFound jsstring | PostArticle post

definition BlogPost_page :: "post list \<Rightarrow> jsstring option \<Rightarrow> post_page" where
  "BlogPost_page items slug' =
     (case find (\<lambda>p. Some (slug p) = slug') items of
        None \<Rightarrow> PostNotFound (str ''#/blog'')
      | Some post \<Rightarrow> PostArticle post)"


section \<open>Contact form\<close>

text \<open>
  The regular expression \<open>/.+@.+\..+/\<close> of the e-mail check needs two kinds of atoms, the
  dot (any code unit but a line terminator) and a literal code unit, each once or under
  \<open>+\<close>. \<open>matchHere\<close> matches a pattern at the start of a text, greedy with
  backtracking; \<open>regex_test\<close> is \<open>RegExp.prototype.test\<close> for a pattern without
  anchors: a match may start anywhere.
\<close>

definition isLineTerminator :: "nat \<Rightarrow> bool" where
  "isLineTerminator c = (c = 10 \<or> c = 13 \<or> c = 8232 \<or> c = 8233)"

datatype atom = AnyChar | Lit nat

datatype piece = One atom | OneOrMore atom

fun atom_ok :: "atom \<Rightarrow> nat \<Rightarrow> bool" where
  "atom_ok AnyChar c = (\<not> isLineTerminator c)"
| "atom_ok (Lit l) c = (c = l)"

fun matchHere :: "piece list \<Rightarrow> jsstring \<Rightarrow> bool" where
  "matchHere [] s = True"
| "matchHere (One a # rest) [] = False"
| "matchHere (One a # rest) (c # cs) = (atom_ok a c \<and> matchHere rest cs)"
| "matchHere (OneOrMore a # rest) [] = False"
| "matchHere (OneOrMore a # rest) (c # cs) =
     (atom_ok a c \<and> (matchHere (OneOrMore a # rest) cs \<or> matchHere rest cs))"

fun regex_test :: "piece list \<Rightarrow> jsstring \<Rightarrow> bool" where
  "regex_test pat [] = matchHere pat []"
| "regex_test pat (c # cs) = (matchHere pat (c # cs) \<or> regex_test pat cs)"

definition emailPattern :: "piece list" where
  "emailPattern =
     [OneOrMore AnyChar, One (Lit 64), OneOrMore AnyChar, One (Lit 46), OneOrMore AnyChar]"

record contact_form =
  name :: jsstring
  email :: jsstring
  phone :: jsstring
  message :: jsstring

definition isValid :: "contact_form \<Rightarrow> bool" where
  "isValid form =
     (length (trim (name form)) \<ge> 2
      \<and> regex_test emailPattern (trim (email form))
      \<and> length (trim (message form)) \<ge> 10)"

text \<open>
  The page state that \<open>onSubmit\<close> can touch: the flag \<open>submitted\<close> and the address
  \<open>window.location.href\<close>; the event carries whether its default action was prevented.
  \<open>encodeURIComponent\<close> is a function of the host that throws a \<open>URIError\<close> on a
  lone surrogate; it is a parameter, \<open>None\<close> standing for the throw.
\<close>

record contact =
  form :: contact_form
  submitted :: bool
  href :: jsstring

record submit_event =
  defaultPrevented :: bool

datatype completion = Normal | URIError

definition BRAND_email :: jsstring where
  "BRAND_email = str ''enquiries@drcharlesbrandon.com''"

definition onSubmit ::
  "(jsstring \<Rightarrow> jsstring option) \<Rightarrow> submit_event \<Rightarrow> contact \<Rightarrow> completion \<times> submit_event \<times> contact" where
  "onSubmit encodeURIComponent e st =
     (let e1 = e\<lparr>defaultPrevented := True\<rparr>
      in if \<not> isValid (form st) then (Normal, e1, st)
         else
           (let st1 = st\<lparr>submitted := True\<rparr>
            in case encodeURIComponent (str ''Private Consultation Request'') of
                 None \<Rightarrow> (URIError, e1, st1)
               | Some subject \<Rightarrow>
                   (case encodeURIComponent
                           (str ''Name: '' @ name (form st) @ [10] @ str ''Email: '' @ email (form st)
                            @ [10] @ str ''Phone: '' @ phone (form st) @ [10, 10]
                            @ str ''Message:'' @ [10] @ message (form st)) of
                      None \<Rightarrow> (URIError, e1, st1)
                    | Some body \<Rightarrow>
                        (Normal, e1,
                         st1\<lparr>href := str ''mailto:'' @ BRAND_email @ str ''?subject='' @ subject
                                     @ str ''&body='' @ body\<rparr>))))"

text \<open>The submit button carries \<open>disabled={!isValid}\<close>.\<close>

definition submit_disabled :: "contact \<Rightarrow> bool" where
  "submit_disabled st = (\<not> isValid (form st))"

text \<open>
  The shape "text@text.text" as the specification words it: somewhere in the string a
  non-empty text, an at sign, a non-empty text, a full stop and a non-empty text, where a
  text holds no line break.
\<close>

definition text_at_text_dot_text :: "jsstring \<Rightarrow> bool" where
  "text_at_text_dot_text s \<longleftrightarrow>
     (\<exists>pre a b c post.
        s = pre @ a @ [64] @ b @ [46] @ c @ post
        \<and> a \<noteq> [] \<and> b \<noteq> [] \<and> c \<noteq> []
        \<and> (\<forall>u\<in>set (a @ b @ c). \<not> isLineTerminator u))"


section \<open>Properties of the router\<close>

lemma split_unfold:
  "split sep s = takeWhile (\<lambda>c. c \<noteq> sep) s #
     (case dropWhile (\<lambda>c. c \<noteq> sep) s of [] \<Rightarrow> [] | _ # r \<Rightarrow> split sep r)"
  by (induction s) (auto split: list.splits)

lemma filter_split_segments:
  "filter (\<lambda>s. s \<noteq> []) (split 47 s) = segments s"
proof (induction s rule: segments.induct)
  case (1 s)
  show ?case
  proof (cases "s = []")
    case True
    then show ?thesis by (simp add: segments.simps)
  next
    case False
    define w where "w = takeWhile (\<lambda>c. c \<noteq> 47) s"
    define d where "d = dropWhile (\<lambda>c. c \<noteq> 47) s"
    define r where "r = drop 1 d"
    have ih: "filter (\<lambda>s. s \<noteq> []) (split 47 r) = segments r"
      using "1.IH" [OF False refl refl] by (simp add: r_def d_def)
    have rest: "filter (\<lambda>s. s \<noteq> []) (case d of [] \<Rightarrow> [] | _ # r \<Rightarrow> split 47 r) = segments r"
    proof (cases d)
      case Nil
      then show ?thesis by (simp add: r_def segments.simps)
    next
      case (Cons a r')
      then show ?thesis using ih by (simp add: r_def)
    qed
    have "split 47 s = w # (case d of [] \<Rightarrow> [] | _ # r \<Rightarrow> split 47 r)"
      unfolding w_def d_def by (rule split_unfold)
    then have "filter (\<lambda>s. s \<noteq> []) (split 47 s) = (if w = [] then [] else [w]) @ segments r"
      using rest by simp
    also have "\<dots> = segments s"
      using False by (subst (2) segments.simps) (simp add: Let_def w_def r_def d_def)
    finally show ?thesis .
  qed
qed

lemma replace_root_strip:
  "replace_root (if hash = [] then str ''#/'' else hash) = strip_root hash"
proof (cases hash)
  case Nil
  then show ?thesis by (simp add: strip_root_def str_def)
next
  case (Cons a t)
  then show ?thesis by (cases t) (auto simp: strip_root_def str_def)
qed

lemma parts_of_segments: "parts_of hash = segments (strip_root hash)"
  unfolding parts_of_def replace_root_strip by (rule filter_split_segments)

lemma parts_nonempty: "p \<in> set (parts_of hash) \<Longrightarrow> p \<noteq> []"
  by (auto simp: parts_of_def)

lemma RouteView_eq_resolve: "RouteView hash = resolve hash"
proof (cases "parts_of hash")
  case Nil
  then show ?thesis
    by (simp add: RouteView_def resolve_def parts_of_segments [symmetric] index_def str_def)
next
  case (Cons p rest)
  then have "p \<noteq> []" using parts_nonempty [of p hash] by simp
  then show ?thesis using Cons
    by (cases rest)
       (simp_all add: RouteView_def resolve_def parts_of_segments [symmetric] index_def Let_def)
qed

lemma RouteView_examples:
  "RouteView (str ''#/'') = Home"
  "RouteView (str []) = Home"
  "RouteView (str ''#/unknown'') = Home"
  "RouteView (str ''#/blog'') = Blog"
  "RouteView (str ''#/blog/'') = Blog"
  by (simp_all add: RouteView_def parts_of_def str_def index_def)

text \<open>
  Claim C3. For every navigation token the router of the source computes what the
  specification describes: it strips one leading \<open>#/\<close>, cuts the rest at every \<open>/\<close>,
  drops the empty segments and dispatches on them: no segment gives Home, a first segment
  \<open>about\<close> About, \<open>contact\<close> Contact, \<open>blog\<close> with a second segment the post of that
  segment, \<open>blog\<close> alone the blog list, anything else Home. In particular \<open>#/blog\<close> and
  \<open>#/blog/\<close> both give the blog list.
\<close>

theorem RouteView_refines_resolve:
  "RouteView hash = resolve hash
   \<and> RouteView (str ''#/blog'') = Blog
   \<and> RouteView (str ''#/blog/'') = Blog"
proof (intro conjI)
  show "RouteView hash = resolve hash"
    by (rule RouteView_eq_resolve)
  show "RouteView (str ''#/blog'') = Blog"
    by (rule RouteView_examples)
  show "RouteView (str ''#/blog/'') = Blog"
    by (rule RouteView_examples)
qed

theorem RouteView_refines_resolve_witness:
  "RouteView (str ''#/blog/smile-design-first-principles'')
     = resolve (str ''#/blog/smile-design-first-principles'')
   \<and> resolve (str ''#/blog/smile-design-first-principles'')
     = BlogPost (Some (str ''smile-design-first-principles''))"
proof -
  have "RouteView (str ''#/blog/smile-design-first-principles'')
        = BlogPost (Some (str ''smile-design-first-principles''))"
    by (simp add: RouteView_def parts_of_def str_def index_def)
  then show ?thesis
    using RouteView_refines_resolve [of "str ''#/blog/smile-design-first-principles''"]
    by simp
qed

text \<open>
  Claim C4. The router is total and deterministic: it is a function of the token alone,
  every token gives one of the five pages, and a post page is never opened with an
  undefined slug, the only read that could go outside the array of segments. The tokens
  \<open>#/\<close>, the empty token and \<open>#/unknown\<close> give Home.
\<close>

theorem RouteView_total:
  "(RouteView hash = Home \<or> RouteView hash = About \<or> RouteView hash = Contact
      \<or> RouteView hash = Blog \<or> (\<exists>s. s \<noteq> [] \<and> RouteView hash = BlogPost (Some s)))
   \<and> RouteView (str ''#/'') = Home
   \<and> RouteView (str []) = Home
   \<and> RouteView (str ''#/unknown'') = Home"
proof -
  have "RouteView hash = Home \<or> RouteView hash = About \<or> RouteView hash = Contact
      \<or> RouteView hash = Blog \<or> (\<exists>s. s \<noteq> [] \<and> RouteView hash = BlogPost (Some s))"
  proof (cases "parts_of hash" rule: remdups_adj.cases)
    case (3 p q rest)
    then have "q \<noteq> []" using parts_nonempty [of q hash] by simp
    then show ?thesis using 3 by (simp add: RouteView_def Let_def index_def)
  qed (simp_all add: RouteView_def Let_def index_def)
  then show ?thesis by (simp add: RouteView_examples)
qed

theorem RouteView_total_witness:
  "RouteView (str ''#/blog/a'') = BlogPost (Some (str ''a'')) \<and> str ''a'' \<noteq> []"
proof -
  have "RouteView (str ''#/blog/a'') = BlogPost (Some (str ''a''))"
    by (simp add: RouteView_def parts_of_def str_def index_def)
  then show ?thesis using RouteView_total [of "str ''#/blog/a''"] by (simp add: str_def)
qed


section \<open>Properties of the sort\<close>

subsection \<open>The sort permutes\<close>

lemma binarySearch_bounds:
  "left \<le> right \<Longrightarrow>
     left \<le> binarySearch comparefn pivot arr left right
     \<and> binarySearch comparefn pivot arr left right \<le> right"
proof (induction comparefn pivot arr left right rule: binarySearch.induct)
  case (1 comparefn pivot arr left right)
  show ?case
  proof (cases "left < right")
    case False
    with "1.prems" show ?thesis by (simp add: binarySearch.simps)
  next
    case True
    define mid where "mid = left + (right - left) div 2"
    have m: "left \<le> mid" "mid < right" using True by (auto simp: mid_def)
    show ?thesis
    proof (cases "comparefn pivot (arr ! mid) < 0")
      case lt: True
      have "left \<le> binarySearch comparefn pivot arr left mid
            \<and> binarySearch comparefn pivot arr left mid \<le> mid"
        using "1.IH"(1) [OF True mid_def refl lt] m by simp
      then show ?thesis
        using True lt m by (subst (1 2) binarySearch.simps) (simp add: Let_def mid_def [symmetric])
    next
      case ge: False
      have "mid + 1 \<le> binarySearch comparefn pivot arr (mid + 1) right
            \<and> binarySearch comparefn pivot arr (mid + 1) right \<le> right"
        using "1.IH"(2) [OF True mid_def refl ge] m by simp
      then show ?thesis
        using True ge m by (subst (1 2) binarySearch.simps) (simp add: Let_def mid_def [symmetric])
    qed
  qed
qed

lemma mset_insertPivot:
  "mset (insertPivot comparefn prefix pivot) = add_mset pivot (mset prefix)"
proof -
  have "mset (take n prefix @ pivot # drop n prefix) = add_mset pivot (mset prefix)" for n
    by (metis append_take_drop_id mset.simps(2) union_mset_add_mset_right mset_append)
  then show ?thesis by (simp add: insertPivot_def Let_def)
qed

lemma mset_foldl_insertPivot:
  "mset (foldl (insertPivot comparefn) run rest) = mset run + mset rest"
  by (induction rest arbitrary: run) (simp_all add: mset_insertPivot)

lemma sort_js_short: "length arr < 2 \<Longrightarrow> sort_js comparefn arr = arr"
  by (cases arr rule: remdups_adj.cases) (simp_all add: sort_js_def)

lemma sort_js_long:
  "sort_js comparefn (a0 # a1 # rest) =
     foldl (insertPivot comparefn)
       (if comparefn a1 a0 < 0
        then rev (take (2 + runTail comparefn (comparefn a1 a0 < 0) a1 rest) (a0 # a1 # rest))
        else take (2 + runTail comparefn (comparefn a1 a0 < 0) a1 rest) (a0 # a1 # rest))
       (drop (2 + runTail comparefn (comparefn a1 a0 < 0) a1 rest) (a0 # a1 # rest))"
  by (simp only: sort_js_def list.case Let_def)

lemma mset_take_drop: "mset (take n xs) + mset (drop n xs) = mset xs"
  by (metis append_take_drop_id mset_append)

lemma mset_sort_js: "mset (sort_js comparefn arr) = mset arr"
proof (cases arr rule: remdups_adj.cases)
  case (3 a0 a1 rest)
  have "mset (foldl (insertPivot comparefn) (if c then rev (take n arr) else take n arr) (drop n arr))
        = mset arr" for c n
    by (simp add: mset_foldl_insertPivot mset_take_drop)
  then show ?thesis unfolding 3 sort_js_long .
qed (simp_all add: sort_js_short)

lemma set_sort_js: "set (sort_js comparefn arr) = set arr"
  using arg_cong [OF mset_sort_js [of comparefn arr], of set_mset] by simp

lemma length_sort_js: "length (sort_js comparefn arr) = length arr"
  using arg_cong [OF mset_sort_js [of comparefn arr], of size] by simp

subsection \<open>The sort commutes with a map that the comparator does not see\<close>

lemma binarySearch_map:
  assumes "\<And>a b. cmp' (f a) (f b) = cmp a b" and "right \<le> length arr"
  shows "binarySearch cmp' (f pivot) (map f arr) left right = binarySearch cmp pivot arr left right"
  using assms
proof (induction cmp pivot arr left right rule: binarySearch.induct)
  case (1 cmp pivot arr left right)
  note rel = "1.prems"(1)
  show ?case
  proof (cases "left < right")
    case False
    then show ?thesis by (simp add: binarySearch.simps)
  next
    case True
    define mid where "mid = left + (right - left) div 2"
    have m: "mid < right" "mid < length arr" using True "1.prems"(2) by (auto simp: mid_def)
    have c: "cmp' (f pivot) (map f arr ! mid) = cmp pivot (arr ! mid)"
      using m by (simp add: rel)
    show ?thesis
    proof (cases "cmp pivot (arr ! mid) < 0")
      case lt: True
      have "binarySearch cmp' (f pivot) (map f arr) left mid = binarySearch cmp pivot arr left mid"
        using "1.IH"(1) [OF True mid_def refl lt rel] m by simp
      then show ?thesis
        using True lt c by (subst (1 2) binarySearch.simps) (simp add: Let_def mid_def [symmetric])
    next
      case ge: False
      have "binarySearch cmp' (f pivot) (map f arr) (mid + 1) right
            = binarySearch cmp pivot arr (mid + 1) right"
        using "1.IH"(2) [OF True mid_def refl ge rel] "1.prems"(2) by simp
      then show ?thesis
        using True ge c by (subst (1 2) binarySearch.simps) (simp add: Let_def mid_def [symmetric])
    qed
  qed
qed

lemma insertPivot_map:
  assumes "\<And>a b. cmp' (f a) (f b) = cmp a b"
  shows "insertPivot cmp' (map f prefix) (f pivot) = map f (insertPivot cmp prefix pivot)"
  using binarySearch_map [of cmp' f cmp "length prefix" prefix pivot 0, OF assms]
  by (simp add: insertPivot_def Let_def take_map drop_map)

lemma foldl_insertPivot_map:
  assumes "\<And>a b. cmp' (f a) (f b) = cmp a b"
  shows "foldl (insertPivot cmp') (map f run) (map f rest)
         = map f (foldl (insertPivot cmp) run rest)"
  by (induction rest arbitrary: run) (simp_all add: insertPivot_map [of cmp' f cmp, OF assms])

lemma runTail_map:
  assumes "\<And>a b. cmp' (f a) (f b) = cmp a b"
  shows "runTail cmp' d (f prev) (map f rest) = runTail cmp d prev rest"
  by (cases d; induction rest arbitrary: prev) (simp_all add: assms Let_def)

lemma sort_js_map:
  assumes "\<And>a b. cmp' (f a) (f b) = cmp a b"
  shows "sort_js cmp' (map f arr) = map f (sort_js cmp arr)"
proof (cases arr rule: remdups_adj.cases)
  case (3 a0 a1 rest)
  define n where "n = 2 + runTail cmp (cmp a1 a0 < 0) a1 rest"
  have n': "2 + runTail cmp' (cmp a1 a0 < 0) (f a1) (map f rest) = n"
    by (simp add: n_def runTail_map [of cmp' f cmp, OF assms])
  have e: "f a0 # f a1 # map f rest = map f arr"
    by (simp add: 3)
  have "sort_js cmp' (f a0 # f a1 # map f rest)
        = foldl (insertPivot cmp')
            (if cmp a1 a0 < 0 then rev (take n (f a0 # f a1 # map f rest))
             else take n (f a0 # f a1 # map f rest))
            (drop n (f a0 # f a1 # map f rest))"
    unfolding sort_js_long assms n' ..
  also have "\<dots> = foldl (insertPivot cmp')
            (map f (if cmp a1 a0 < 0 then rev (take n arr) else take n arr))
            (map f (drop n arr))"
    unfolding e by (simp add: take_map drop_map rev_map)
  also have "\<dots> = map f (foldl (insertPivot cmp)
            (if cmp a1 a0 < 0 then rev (take n arr) else take n arr) (drop n arr))"
    by (rule foldl_insertPivot_map [of cmp' f cmp, OF assms])
  also have "\<dots> = map f (sort_js cmp arr)"
    unfolding 3 sort_js_long n_def ..
  finally show ?thesis unfolding e .
qed (simp_all add: sort_js_short)

subsection \<open>The sort sorts\<close>

lemma binarySearch_splits:
  assumes "orders_by comparefn le"
    and "sorted_wrt le arr"
    and "left \<le> right" and "right \<le> length arr"
    and "\<forall>i<left. le (arr ! i) pivot"
    and "\<forall>j. right \<le> j \<and> j < length arr \<longrightarrow> le pivot (arr ! j)"
  shows "(\<forall>i<binarySearch comparefn pivot arr left right. le (arr ! i) pivot)
       \<and> (\<forall>j. binarySearch comparefn pivot arr left right \<le> j \<and> j < length arr
              \<longrightarrow> le pivot (arr ! j))"
  using assms
proof (induction comparefn pivot arr left right rule: binarySearch.induct)
  case (1 comparefn pivot arr left right)
  note ob = "1.prems"(1) and srt = "1.prems"(2)
  note lr = "1.prems"(3) and rn = "1.prems"(4) and lo = "1.prems"(5) and hi = "1.prems"(6)
  have tr: "le a b \<Longrightarrow> le b c \<Longrightarrow> le a c" for a b c
    using ob unfolding orders_by_def by blast
  have h2: "comparefn a b < 0 \<Longrightarrow> le a b" for a b
    using ob unfolding orders_by_def by blast
  have h3: "\<not> comparefn a b < 0 \<Longrightarrow> le b a" for a b
    using ob unfolding orders_by_def by blast
  show ?case
  proof (cases "left < right")
    case False
    then have "binarySearch comparefn pivot arr left right = left"
      by (simp add: binarySearch.simps)
    moreover have "left = right" using False lr by simp
    ultimately show ?thesis using lo hi by simp
  next
    case True
    define mid where "mid = left + (right - left) div 2"
    have m: "left \<le> mid" "mid < right" "mid < length arr"
      using True rn by (auto simp: mid_def)
    show ?thesis
    proof (cases "comparefn pivot (arr ! mid) < 0")
      case lt: True
      have pm: "le pivot (arr ! mid)" using h2 [OF lt] .
      have hi': "\<forall>j. mid \<le> j \<and> j < length arr \<longrightarrow> le pivot (arr ! j)"
      proof (intro allI impI)
        fix j assume j: "mid \<le> j \<and> j < length arr"
        show "le pivot (arr ! j)"
        proof (cases "j = mid")
          case True
          then show ?thesis using pm by simp
        next
          case False
          then have "le (arr ! mid) (arr ! j)"
            using sorted_wrt_nth_less [OF srt, of mid j] j by simp
          then show ?thesis using tr [OF pm] by blast
        qed
      qed
      have eq: "binarySearch comparefn pivot arr left right
                = binarySearch comparefn pivot arr left mid"
        using True lt by (subst binarySearch.simps) (simp add: Let_def mid_def [symmetric])
      have m1: "left \<le> mid" "mid \<le> length arr" using m by simp_all
      show ?thesis
        unfolding eq
        by (rule "1.IH"(1) [OF True mid_def refl lt ob srt m1 lo hi'])
    next
      case ge: False
      have mp: "le (arr ! mid) pivot" using h3 [OF ge] .
      have lo': "\<forall>i<mid + 1. le (arr ! i) pivot"
      proof (intro allI impI)
        fix i assume i: "i < mid + 1"
        show "le (arr ! i) pivot"
        proof (cases "i = mid")
          case True
          then show ?thesis using mp by simp
        next
          case False
          then have "le (arr ! i) (arr ! mid)"
            using sorted_wrt_nth_less [OF srt, of i mid] i m by simp
          then show ?thesis using tr [OF _ mp] by blast
        qed
      qed
      have eq: "binarySearch comparefn pivot arr left right
                = binarySearch comparefn pivot arr (mid + 1) right"
        using True ge by (subst binarySearch.simps) (simp add: Let_def mid_def [symmetric])
      have m1: "mid + 1 \<le> right" using m by simp
      show ?thesis
        unfolding eq
        by (rule "1.IH"(2) [OF True mid_def refl ge ob srt m1 rn lo' hi])
    qed
  qed
qed

lemma sorted_wrt_insertPivot:
  assumes ob: "orders_by comparefn le"
    and srt: "sorted_wrt le prefix"
  shows "sorted_wrt le (insertPivot comparefn prefix pivot)"
proof -
  define k where "k = binarySearch comparefn pivot prefix 0 (length prefix)"
  have kb: "k \<le> length prefix"
    using binarySearch_bounds [of 0 "length prefix" comparefn pivot prefix] by (simp add: k_def)
  have sp: "(\<forall>i<k. le (prefix ! i) pivot)
          \<and> (\<forall>j. k \<le> j \<and> j < length prefix \<longrightarrow> le pivot (prefix ! j))"
    unfolding k_def
    by (rule binarySearch_splits [OF ob srt]) auto
  have before: "le x pivot" if "x \<in> set (take k prefix)" for x
  proof -
    from that obtain i where "i < length (take k prefix)" "take k prefix ! i = x"
      by (auto simp: in_set_conv_nth)
    then show ?thesis using sp by auto
  qed
  have after: "le pivot y" if "y \<in> set (drop k prefix)" for y
  proof -
    from that obtain i where i: "i < length (drop k prefix)" "drop k prefix ! i = y"
      by (auto simp: in_set_conv_nth)
    then have "k + i < length prefix" "prefix ! (k + i) = y" using kb by auto
    then show ?thesis using sp by (metis le_add1)
  qed
  have tr: "le a b \<Longrightarrow> le b c \<Longrightarrow> le a c" for a b c
    using ob unfolding orders_by_def by blast
  have "sorted_wrt le (take k prefix)" "sorted_wrt le (drop k prefix)"
    using srt by simp_all
  moreover have "le x y" if "x \<in> set (take k prefix)" "y \<in> set (drop k prefix)" for x y
    using tr [OF before [OF that(1)] after [OF that(2)]] .
  ultimately have "sorted_wrt le (take k prefix @ pivot # drop k prefix)"
    using before after by (simp add: sorted_wrt_append)
  then show ?thesis by (simp add: insertPivot_def k_def Let_def)
qed

lemma sorted_wrt_foldl_insertPivot:
  assumes ob: "orders_by comparefn le"
  shows "sorted_wrt le run \<Longrightarrow> sorted_wrt le (foldl (insertPivot comparefn) run rest)"
proof (induction rest arbitrary: run)
  case Nil
  then show ?case by simp
next
  case (Cons x rest)
  have "sorted_wrt le (insertPivot comparefn run x)"
    by (rule sorted_wrt_insertPivot [OF ob Cons.prems])
  then show ?case using Cons.IH by simp
qed

lemma runTail_chain:
  "successively (\<lambda>p c. if d then comparefn c p < 0 else \<not> comparefn c p < 0)
     (previous # take (runTail comparefn d previous rest) rest)"
  by (cases d; induction rest arbitrary: previous) (simp_all add: Let_def)

lemma sorted_wrt_run:
  fixes a0 a1 :: 'a and rest :: "'a list" and comparefn :: "'a \<Rightarrow> 'a \<Rightarrow> int"
  assumes ob: "orders_by comparefn le"
  defines "d \<equiv> comparefn a1 a0 < 0"
  defines "n \<equiv> 2 + runTail comparefn d a1 rest"
  shows "sorted_wrt le (if d then rev (take n (a0 # a1 # rest)) else take n (a0 # a1 # rest))"
proof -
  let ?P = "\<lambda>p c. if d then comparefn c p < 0 else \<not> comparefn c p < 0"
  have tk: "take n (a0 # a1 # rest) = a0 # a1 # take (runTail comparefn d a1 rest) rest"
    by (simp add: n_def)
  have ch: "successively ?P (take n (a0 # a1 # rest))"
    unfolding tk using runTail_chain [of d comparefn a1 rest] by (simp add: d_def)
  have trp: "transp le" using ob unfolding orders_by_def transp_def by blast
  have h2: "comparefn a b < 0 \<Longrightarrow> le a b" for a b
    using ob unfolding orders_by_def by blast
  have h3: "\<not> comparefn a b < 0 \<Longrightarrow> le b a" for a b
    using ob unfolding orders_by_def by blast
  show ?thesis
  proof (cases d)
    case True
    have "successively (\<lambda>x y. ?P y x) (rev (take n (a0 # a1 # rest)))"
      using ch by simp
    then have "successively le (rev (take n (a0 # a1 # rest)))"
      by (rule successively_mono) (use True h2 in auto)
    then have "sorted_wrt le (rev (take n (a0 # a1 # rest)))"
      using successively_conv_sorted_wrt [OF trp] by blast
    then show ?thesis using True by simp
  next
    case False
    have "successively le (take n (a0 # a1 # rest))"
      using ch by (rule successively_mono) (use False h3 in auto)
    then have "sorted_wrt le (take n (a0 # a1 # rest))"
      using successively_conv_sorted_wrt [OF trp] by blast
    then show ?thesis using False by simp
  qed
qed

lemma sorted_wrt_sort_js:
  assumes ob: "orders_by comparefn le"
  shows "sorted_wrt le (sort_js comparefn arr)"
proof (cases arr rule: remdups_adj.cases)
  case (3 a0 a1 rest)
  show ?thesis
    unfolding 3 sort_js_long
    by (rule sorted_wrt_foldl_insertPivot [OF ob]) (rule sorted_wrt_run [OF ob])
qed (simp_all add: sort_js_short)

section \<open>Properties of strings\<close>

subsection \<open>The order of strings\<close>

lemma str_lt_irrefl: "\<not> str_lt a a"
  by (induction a) auto

lemma str_lt_asym: "str_lt a b \<Longrightarrow> \<not> str_lt b a"
  by (induction a b rule: str_lt.induct) auto

lemma str_lt_trans: "str_lt a b \<Longrightarrow> str_lt b c \<Longrightarrow> str_lt a c"
proof (induction a b arbitrary: c rule: str_lt.induct)
  case (2 y ys)
  then show ?case by (cases c) auto
next
  case (4 x xs y ys)
  then show ?case by (cases c) auto
qed auto

lemma str_lt_total: "str_lt a b \<or> a = b \<or> str_lt b a"
  by (induction a b rule: str_lt.induct) auto


subsection \<open>Substrings\<close>

lemma startsWith_iff: "startsWith s p \<longleftrightarrow> (\<exists>post. s = p @ post)"
  by (induction s p rule: startsWith.induct) auto

lemma includes_js_iff: "includes_js s p \<longleftrightarrow> (\<exists>pre post. s = pre @ p @ post)"
proof (induction s)
  case Nil
  then show ?case by auto
next
  case (Cons c cs)
  have "(\<exists>pre post. c # cs = pre @ p @ post)
        \<longleftrightarrow> (\<exists>post. c # cs = p @ post) \<or> (\<exists>pre post. cs = pre @ p @ post)"
  proof
    assume "\<exists>pre post. c # cs = pre @ p @ post"
    then obtain pre post where e: "c # cs = pre @ p @ post" by blast
    show "(\<exists>post. c # cs = p @ post) \<or> (\<exists>pre post. cs = pre @ p @ post)"
    proof (cases pre)
      case Nil
      with e show ?thesis by auto
    next
      case (Cons a pre')
      with e have "cs = pre' @ p @ post" by simp
      then show ?thesis by blast
    qed
  next
    assume "(\<exists>post. c # cs = p @ post) \<or> (\<exists>pre post. cs = pre @ p @ post)"
    then show "\<exists>pre post. c # cs = pre @ p @ post"
    proof
      assume "\<exists>post. c # cs = p @ post"
      then obtain post where "c # cs = [] @ p @ post" by auto
      then show ?thesis by blast
    next
      assume "\<exists>pre post. cs = pre @ p @ post"
      then obtain pre post where "c # cs = (c # pre) @ p @ post" by auto
      then show ?thesis by blast
    qed
  qed
  then show ?case using Cons.IH by (simp add: startsWith_iff)
qed


section \<open>Properties of the blog list\<close>

subsection \<open>The filter\<close>

lemma hitQ_iff:
  "hitQ caseMap query p \<longleftrightarrow>
     query = []
     \<or> includes_js (toLowerCase caseMap (title p)) query
     \<or> includes_js (toLowerCase caseMap (excerpt p)) query
     \<or> (\<exists>t\<in>set (tags p). includes_js (toLowerCase caseMap t) query)"
  by (simp add: hitQ_def list_ex_iff)

lemma mset_filtered:
  "mset (filtered caseMap items q tag)
   = filter_mset (\<lambda>p. hitQ caseMap (toLowerCase caseMap (trim q)) p \<and> hitT tag p) (mset items)"
  by (simp add: filtered_def Let_def mset_sort_js)

lemma set_filtered:
  "set (filtered caseMap items q tag)
   = {p \<in> set items. hitQ caseMap (toLowerCase caseMap (trim q)) p \<and> hitT tag p}"
  by (simp add: filtered_def Let_def set_sort_js)

lemma trim_empty: "toLowerCase caseMap (trim []) = []"
  by (simp add: trim_def toLowerCase_def)

lemma filtered_no_filter: "mset (filtered caseMap items [] (str ''all'')) = mset items"
  by (simp add: mset_filtered trim_empty hitQ_def hitT_def)



lemma dateCmp_not_consistent: "\<not> consistent dateCmp"
proof
  assume "consistent dateCmp"
  then have "dateCmp undefined undefined = 0"
    unfolding consistent_def by blast
  then show False by (simp add: dateCmp_def split: if_splits)
qed

lemma hit_content:
  "hitQ caseMap query (p\<lparr>content := c\<rparr>) = hitQ caseMap query p" "hitT tag (p\<lparr>content := c\<rparr>) = hitT tag p"
  by (simp_all add: hitQ_def hitT_def)

lemma filter_map_content:
  "filter (\<lambda>p. hitQ caseMap query p \<and> hitT tag p) (map (\<lambda>p. p\<lparr>content := c\<rparr>) items)
   = map (\<lambda>p. p\<lparr>content := c\<rparr>) (filter (\<lambda>p. hitQ caseMap query p \<and> hitT tag p) items)"
  by (induction items) (simp_all add: hit_content)

lemma filtered_map_content:
  "filtered caseMap (map (\<lambda>p. p\<lparr>content := c\<rparr>) items) q tag
   = map (\<lambda>p. p\<lparr>content := c\<rparr>) (filtered caseMap items q tag)"
proof -
  have "dateCmp (a\<lparr>content := c\<rparr>) (b\<lparr>content := c\<rparr>) = dateCmp a b" for a b
    by (simp add: dateCmp_def)
  then show ?thesis
    unfolding filtered_def Let_def filter_map_content
    by (rule sort_js_map [of dateCmp "\<lambda>p. p\<lparr>content := c\<rparr>" dateCmp])
qed

lemma latin1_case_lowerLatin1: "latin1_case lowerLatin1"
  by (simp add: latin1_case_def)

lemma filtered_bonding:
  assumes "latin1_case caseMap"
  shows "filtered caseMap BLOG_POSTS (str ''bonding'') (str ''all'')
         = [BLOG_POSTS ! 1, BLOG_POSTS ! 2]"
proof -
  have known: "caseMap s = map lowerUnit s" if "\<forall>c\<in>set s. c < 256 \<or> c = 8212" for s
    using assms that unfolding latin1_case_def lowerLatin1_def by blast
  show ?thesis
    by (simp add: filtered_def BLOG_POSTS_def str_def trim_def isWhiteSpace_def toLowerCase_def
        known lowerUnit_def hitQ_def hitT_def sort_js_def dateCmp_def insertPivot_def)
qed

text \<open>
  Claim C1. Whatever the lower-case mapping of the host is, an item is in the result of the
  content filter exactly when it is an item of the list, the trimmed and lower-cased query
  is empty or occurs in the lower-cased title, in the lower-cased excerpt or in some
  lower-cased tag, and the tag selector is \<open>all\<close> or is one of the item's tags, compared
  as it is written. On the posts of the site, whose texts a lower-case mapping treats as
  Latin-1 text, the query \<open>bonding\<close> with the selector \<open>all\<close> gives the second and the
  third post.
\<close>

theorem filtered_includes_iff:
  "(p \<in> set (filtered caseMap items q tag) \<longleftrightarrow>
      p \<in> set items
      \<and> (toLowerCase caseMap (trim q) = []
         \<or> includes_js (toLowerCase caseMap (title p)) (toLowerCase caseMap (trim q))
         \<or> includes_js (toLowerCase caseMap (excerpt p)) (toLowerCase caseMap (trim q))
         \<or> (\<exists>t\<in>set (tags p).
               includes_js (toLowerCase caseMap t) (toLowerCase caseMap (trim q))))
      \<and> (tag = str ''all'' \<or> tag \<in> set (tags p)))
   \<and> (latin1_case caseMap \<longrightarrow>
        filtered caseMap BLOG_POSTS (str ''bonding'') (str ''all'')
        = [BLOG_POSTS ! 1, BLOG_POSTS ! 2])"
proof (intro conjI impI)
  show "p \<in> set (filtered caseMap items q tag) \<longleftrightarrow>
      p \<in> set items
      \<and> (toLowerCase caseMap (trim q) = []
         \<or> includes_js (toLowerCase caseMap (title p)) (toLowerCase caseMap (trim q))
         \<or> includes_js (toLowerCase caseMap (excerpt p)) (toLowerCase caseMap (trim q))
         \<or> (\<exists>t\<in>set (tags p).
               includes_js (toLowerCase caseMap t) (toLowerCase caseMap (trim q))))
      \<and> (tag = str ''all'' \<or> tag \<in> set (tags p))"
    by (simp add: set_filtered hitQ_iff hitT_def)
next
  assume "latin1_case caseMap"
  then show "filtered caseMap BLOG_POSTS (str ''bonding'') (str ''all'')
             = [BLOG_POSTS ! 1, BLOG_POSTS ! 2]"
    by (rule filtered_bonding)
qed

theorem filtered_includes_iff_witness:
  "latin1_case lowerLatin1
   \<and> filtered lowerLatin1 BLOG_POSTS (str ''bonding'') (str ''all'')
     = [BLOG_POSTS ! 1, BLOG_POSTS ! 2]
   \<and> BLOG_POSTS ! 2 \<in> set (filtered lowerLatin1 BLOG_POSTS (str '' WHITE '') (str ''Planning''))"
proof -
  have "includes_js (toLowerCase lowerLatin1 (title (BLOG_POSTS ! 2)))
          (toLowerCase lowerLatin1 (trim (str '' WHITE '')))"
    by (simp add: BLOG_POSTS_def str_def trim_def isWhiteSpace_def toLowerCase_def
        lowerLatin1_def lowerUnit_def)
  moreover have "BLOG_POSTS ! 2 \<in> set BLOG_POSTS"
    by (simp add: BLOG_POSTS_def)
  moreover have "str ''Planning'' \<in> set (tags (BLOG_POSTS ! 2))"
    by (simp add: BLOG_POSTS_def)
  ultimately show ?thesis
    using latin1_case_lowerLatin1
      filtered_includes_iff [where caseMap = lowerLatin1 and p = "BLOG_POSTS ! 2"
        and items = BLOG_POSTS and q = "str '' WHITE ''" and tag = "str ''Planning''"]
    by blast
qed

text \<open>
  Claim C9. Filtering the result of a filter once more, with the empty query and the
  selector \<open>all\<close>, gives the same items with the same multiplicities, and the result of a
  filter holds only items of its input.
\<close>

theorem filtered_again:
  "mset (filtered caseMap (filtered caseMap items q tag) [] (str ''all'')) = mset (filtered caseMap items q tag)
   \<and> mset (filtered caseMap items q tag) \<subseteq># mset items
   \<and> set (filtered caseMap items q tag) \<subseteq> set items"
proof (intro conjI)
  show "mset (filtered caseMap (filtered caseMap items q tag) [] (str ''all'')) = mset (filtered caseMap items q tag)"
    by (rule filtered_no_filter)
  show "mset (filtered caseMap items q tag) \<subseteq># mset items"
    by (simp add: mset_filtered)
  show "set (filtered caseMap items q tag) \<subseteq> set items"
    by (auto simp: set_filtered)
qed

theorem filtered_again_witness:
  "set (filtered lowerLatin1 (filtered lowerLatin1 BLOG_POSTS (str ''bonding'') (str ''Bonding''))
          [] (str ''all''))
   \<subseteq> set BLOG_POSTS"
proof -
  note w = filtered_again [where caseMap = lowerLatin1 and items = BLOG_POSTS
      and q = "str ''bonding''" and tag = "str ''Bonding''"]
  have "set (filtered lowerLatin1 (filtered lowerLatin1 BLOG_POSTS (str ''bonding'') (str ''Bonding''))
          [] (str ''all''))
        = set (filtered lowerLatin1 BLOG_POSTS (str ''bonding'') (str ''Bonding''))"
    using w by (metis set_mset_mset)
  then show ?thesis
    using w by simp
qed

text \<open>
  Claim C10. The content filter does not read the paragraphs of a post: two lists that agree
  once the paragraphs are blanked give results that agree once the paragraphs are blanked,
  the same posts in the same order, for every query and tag selector.
\<close>

theorem filtered_ignores_content:
  assumes "map (\<lambda>p. p\<lparr>content := []\<rparr>) xs = map (\<lambda>p. p\<lparr>content := []\<rparr>) ys"
  shows "map (\<lambda>p. p\<lparr>content := []\<rparr>) (filtered caseMap xs q tag)
         = map (\<lambda>p. p\<lparr>content := []\<rparr>) (filtered caseMap ys q tag)
       \<and> map slug (filtered caseMap xs q tag) = map slug (filtered caseMap ys q tag)"
proof -
  have e: "map (\<lambda>p. p\<lparr>content := []\<rparr>) (filtered caseMap xs q tag)
         = map (\<lambda>p. p\<lparr>content := []\<rparr>) (filtered caseMap ys q tag)"
    using assms by (simp add: filtered_map_content [symmetric])
  have "map slug (map (\<lambda>p. p\<lparr>content := []\<rparr>) zs) = map slug zs" for zs :: "post list"
    by simp
  then have "map slug (filtered caseMap xs q tag) = map slug (filtered caseMap ys q tag)"
    using arg_cong [OF e, of "map slug"] by metis
  with e show ?thesis by simp
qed

theorem filtered_ignores_content_witness:
  "map (\<lambda>p. p\<lparr>content := []\<rparr>) BLOG_POSTS
     = map (\<lambda>p. p\<lparr>content := []\<rparr>) (map (\<lambda>p. p\<lparr>content := [str ''bonding'']\<rparr>) BLOG_POSTS)
   \<and> map slug (filtered lowerLatin1 BLOG_POSTS (str ''bonding'') (str ''all''))
     = map slug (filtered lowerLatin1 (map (\<lambda>p. p\<lparr>content := [str ''bonding'']\<rparr>) BLOG_POSTS)
                  (str ''bonding'') (str ''all''))"
proof -
  have h: "map (\<lambda>p. p\<lparr>content := []\<rparr>) BLOG_POSTS
     = map (\<lambda>p. p\<lparr>content := []\<rparr>) (map (\<lambda>p. p\<lparr>content := [str ''bonding'']\<rparr>) BLOG_POSTS)"
    by simp
  show ?thesis
    using h filtered_ignores_content [OF h, where caseMap = lowerLatin1
        and q = "str ''bonding''" and tag = "str ''all''"]
    by blast
qed

text \<open>
  Claim C8. The content filter does not write to its input: run on a store, it leaves
  every array that was there as it was, the input array among them, and returns a new
  array, at an address that was not in use, holding the filtered caseMap and sorted posts. A
  second call returns yet another array and leaves the first result alone.
\<close>

theorem filtered_st_pure:
  assumes "src < length h"
  shows "\<exists>h' r. filtered_st caseMap h src q tag = Some (h', r)
           \<and> r = length h \<and> length h' = Suc (length h)
           \<and> take (length h) h' = h
           \<and> h' ! src = h ! src
           \<and> h' ! r = filtered caseMap (h ! src) q tag
           \<and> (\<exists>h'' r'. filtered_st caseMap h' src q tag = Some (h'', r')
                  \<and> r' \<noteq> r \<and> h'' ! r = h' ! r \<and> h'' ! src = h ! src)"
proof -
  have step: "filtered_st caseMap g src q tag = Some (g @ [filtered caseMap (g ! src) q tag], length g)"
    if "src < length g" for g
    using that by (simp add: filtered_st_def index_def alloc_def filtered_def Let_def)
  let ?h' = "h @ [filtered caseMap (h ! src) q tag]"
  have s1: "filtered_st caseMap h src q tag = Some (?h', length h)"
    using step [OF assms] .
  have src': "src < length ?h'" using assms by simp
  have s2: "filtered_st caseMap ?h' src q tag = Some (?h' @ [filtered caseMap (?h' ! src) q tag], length ?h')"
    using step [OF src'] .
  have keep: "?h' ! src = h ! src" using assms by (simp add: nth_append)
  have "(?h' @ [filtered caseMap (?h' ! src) q tag]) ! length h = ?h' ! length h"
    by (simp add: nth_append)
  moreover have "(?h' @ [filtered caseMap (?h' ! src) q tag]) ! src = h ! src"
    using assms by (simp add: nth_append)
  ultimately show ?thesis
    using s1 s2 keep by simp
qed

theorem filtered_st_pure_witness:
  "\<exists>h' r. filtered_st lowerLatin1 [BLOG_POSTS] 0 (str ''bonding'') (str ''all'') = Some (h', r)
      \<and> r = 1 \<and> h' ! 0 = BLOG_POSTS"
proof -
  have "(0::nat) < length [BLOG_POSTS]" by simp
  from filtered_st_pure [OF this, where caseMap = lowerLatin1
      and q = "str ''bonding''" and tag = "str ''all''"]
  show ?thesis by auto
qed

section \<open>Properties of the single post page\<close>

text \<open>
  Claim C6. The post page looks the slug up from the front of the list: when some post has
  the slug, the page shows the first such post, so the slug of the first post of a list
  shows that post; when no post has it, or the slug is undefined, the page is the card
  "Post not found" whose button leads to \<open>#/blog\<close>, a token the router resolves to the
  blog list.
\<close>

theorem BlogPost_page_find:
  "((\<exists>p\<in>set items. slug p = s) \<longrightarrow>
      (\<exists>i<length items. slug (items ! i) = s \<and> (\<forall>j<i. slug (items ! j) \<noteq> s)
         \<and> BlogPost_page items (Some s) = PostArticle (items ! i)))
   \<and> (items \<noteq> [] \<longrightarrow> BlogPost_page items (Some (slug (items ! 0))) = PostArticle (items ! 0))
   \<and> ((\<forall>p\<in>set items. slug p \<noteq> s) \<longrightarrow>
        BlogPost_page items (Some s) = PostNotFound (str ''#/blog''))
   \<and> BlogPost_page items None = PostNotFound (str ''#/blog'')
   \<and> RouteView (str ''#/blog'') = Blog"
proof (intro conjI impI)
  assume "\<exists>p\<in>set items. slug p = s"
  then have "find (\<lambda>p. slug p = s) items \<noteq> None"
    by (auto simp: find_None_iff)
  then obtain x where x: "find (\<lambda>p. slug p = s) items = Some x" by blast
  then obtain i where "i < length items" "slug (items ! i) = s" "x = items ! i"
    "\<forall>j<i. slug (items ! j) \<noteq> s"
    unfolding find_Some_iff by blast
  then show "\<exists>i<length items. slug (items ! i) = s \<and> (\<forall>j<i. slug (items ! j) \<noteq> s)
         \<and> BlogPost_page items (Some s) = PostArticle (items ! i)"
    using x by (auto simp: BlogPost_page_def)
next
  assume "items \<noteq> []"
  then show "BlogPost_page items (Some (slug (items ! 0))) = PostArticle (items ! 0)"
    by (cases items) (simp_all add: BlogPost_page_def)
next
  assume "\<forall>p\<in>set items. slug p \<noteq> s"
  then have "find (\<lambda>p. slug p = s) items = None"
    by (simp add: find_None_iff)
  then show "BlogPost_page items (Some s) = PostNotFound (str ''#/blog'')"
    by (simp add: BlogPost_page_def)
next
  have "find (\<lambda>p. Some (slug p) = None) items = None"
    by (simp add: find_None_iff)
  then show "BlogPost_page items None = PostNotFound (str ''#/blog'')"
    by (simp add: BlogPost_page_def)
next
  show "RouteView (str ''#/blog'') = Blog"
    by (rule RouteView_examples)
qed

theorem BlogPost_page_find_witness:
  "BlogPost_page BLOG_POSTS (Some (str ''does-not-exist'')) = PostNotFound (str ''#/blog'')
   \<and> BlogPost_page BLOG_POSTS (Some (slug (BLOG_POSTS ! 0))) = PostArticle (BLOG_POSTS ! 0)
   \<and> (\<exists>p\<in>set BLOG_POSTS. slug p = str ''composite-bonding-aftercare'')
   \<and> (\<exists>i<length BLOG_POSTS.
         BlogPost_page BLOG_POSTS (Some (str ''composite-bonding-aftercare''))
         = PostArticle (BLOG_POSTS ! i))"
proof -
  have a: "\<forall>p\<in>set BLOG_POSTS. slug p \<noteq> str ''does-not-exist''"
    by (simp add: BLOG_POSTS_def str_def)
  have b: "BLOG_POSTS \<noteq> []"
    by (simp add: BLOG_POSTS_def)
  have c: "\<exists>p\<in>set BLOG_POSTS. slug p = str ''composite-bonding-aftercare''"
    by (simp add: BLOG_POSTS_def)
  show ?thesis
    using a b c BlogPost_page_find [of BLOG_POSTS "str ''does-not-exist''"]
      BlogPost_page_find [of BLOG_POSTS "str ''composite-bonding-aftercare''"]
    by blast
qed

section \<open>Order of the result\<close>







section \<open>Properties of the tag selector\<close>

lemma set_foldl_set_add: "set (foldl set_add t xs) = set t \<union> set xs"
  by (induction xs arbitrary: t) (auto simp: set_add_def)

lemma distinct_foldl_set_add: "distinct t \<Longrightarrow> distinct (foldl set_add t xs)"
  by (induction xs arbitrary: t) (auto simp: set_add_def)

lemma set_collect_tags:
  "set (foldl (\<lambda>t p. foldl set_add t (tags p)) t items) = set t \<union> (\<Union>p\<in>set items. set (tags p))"
  by (induction items arbitrary: t) (auto simp: set_foldl_set_add)

lemma distinct_collect_tags:
  "distinct t \<Longrightarrow> distinct (foldl (\<lambda>t p. foldl set_add t (tags p)) t items)"
  by (induction items arbitrary: t) (auto simp: distinct_foldl_set_add)

lemma consistent_flip:
  assumes "consistent comparefn" and "comparefn x y > 0"
  shows "comparefn y x < 0"
proof (rule ccontr)
  assume "\<not> comparefn y x < 0"
  then consider "comparefn y x = 0" | "comparefn y x > 0" by linarith
  then show False
  proof cases
    case 1
    then have "comparefn x y = 0" using assms(1) unfolding consistent_def by blast
    with assms(2) show False by simp
  next
    case 2
    with assms(2) have "comparefn x x > 0" using assms(1) unfolding consistent_def by blast
    moreover have "comparefn x x = 0" using assms(1) unfolding consistent_def by blast
    ultimately show False by simp
  qed
qed

lemma consistent_orders:
  assumes c: "consistent comparefn"
  shows "orders_by comparefn (\<lambda>a b. comparefn a b \<le> 0)"
proof -
  have refl0: "comparefn a a = 0" for a
    using c unfolding consistent_def by blast
  have sym0: "comparefn a b = 0 \<Longrightarrow> comparefn b a = 0" for a b
    using c unfolding consistent_def by blast
  have tr0: "comparefn a b = 0 \<Longrightarrow> comparefn b d = 0 \<Longrightarrow> comparefn a d = 0" for a b d
    using c unfolding consistent_def by blast
  have trl: "comparefn a b < 0 \<Longrightarrow> comparefn b d < 0 \<Longrightarrow> comparefn a d < 0" for a b d
    using c unfolding consistent_def by blast
  have flip: "comparefn a b > 0 \<Longrightarrow> comparefn b a < 0" for a b
    using consistent_flip [OF c] .
  have tr: "comparefn a d \<le> 0" if ab: "comparefn a b \<le> 0" and bd: "comparefn b d \<le> 0" for a b d
  proof (rule ccontr)
    assume "\<not> comparefn a d \<le> 0"
    then have da: "comparefn d a < 0" using flip by simp
    consider "comparefn a b < 0" | "comparefn a b = 0" using ab by linarith
    then show False
    proof cases
      case 1
      with da have db: "comparefn d b < 0" using trl by blast
      consider "comparefn b d < 0" | "comparefn b d = 0" using bd by linarith
      then show False
      proof cases
        case 1
        with db have "comparefn d d < 0" using trl by blast
        then show False using refl0 [of d] by simp
      next
        case 2
        then have "comparefn d b = 0" using sym0 by blast
        with db show False by simp
      qed
    next
      case 2
      consider "comparefn b d < 0" | "comparefn b d = 0" using bd by linarith
      then show False
      proof cases
        case 1
        with da have "comparefn b a < 0" using trl by blast
        moreover have "comparefn b a = 0" using 2 sym0 by blast
        ultimately show False by simp
      next
        case 1: 2
        with 2 have "comparefn a d = 0" using tr0 by blast
        then have "comparefn d a = 0" using sym0 by blast
        with da show False by simp
      qed
    qed
  qed
  have h3: "comparefn b a \<le> 0" if nlt: "\<not> comparefn a b < 0" for a b
  proof -
    consider "comparefn a b = 0" | "comparefn a b > 0" using nlt by linarith
    then show ?thesis
    proof cases
      case 1
      then show ?thesis using sym0 [of a b] by simp
    next
      case 2
      then show ?thesis using flip [of a b] by simp
    qed
  qed
  show ?thesis
    unfolding orders_by_def using tr h3 by (intro conjI allI impI) (blast, simp, blast)
qed

lemma consistent_flip_less:
  assumes "consistent comparefn" and "comparefn x y < 0"
  shows "comparefn y x > 0"
proof (rule ccontr)
  assume "\<not> comparefn y x > 0"
  then consider "comparefn y x = 0" | "comparefn y x < 0" by linarith
  then show False
  proof cases
    case 1
    then have "comparefn x y = 0" using assms(1) unfolding consistent_def by blast
    with assms(2) show False by simp
  next
    case 2
    with assms(2) have "comparefn x x < 0" using assms(1) unfolding consistent_def by blast
    moreover have "comparefn x x = 0" using assms(1) unfolding consistent_def by blast
    ultimately show False by simp
  qed
qed

lemma consistent_by_key:
  assumes cmp: "\<And>a b. comparefn a b
                  = (if lt (key a) (key b) then - 1 else if lt (key b) (key a) then 1 else 0)"
    and irrefl: "\<And>x. \<not> lt x x"
    and tr: "\<And>x y z. lt x y \<Longrightarrow> lt y z \<Longrightarrow> lt x z"
    and total: "\<And>x y. lt x y \<or> x = y \<or> lt y x"
  shows "consistent comparefn"
proof -
  have asym: "\<not> lt y x" if "lt x y" for x y
    using tr [OF that] irrefl by blast
  have zero: "comparefn a b = 0 \<longleftrightarrow> key a = key b" for a b
    using total [of "key a" "key b"] irrefl by (auto simp: cmp)
  have neg: "comparefn a b < 0 \<longleftrightarrow> lt (key a) (key b)" for a b
    by (simp add: cmp)
  have pos: "comparefn a b > 0 \<longleftrightarrow> lt (key b) (key a)" for a b
    using asym [of "key a" "key b"] by (auto simp: cmp)
  show ?thesis
    unfolding consistent_def zero neg pos
    using tr by (intro conjI allI impI) (simp, simp, simp, blast, blast)
qed

lemma collate_consistent: "consistent collate"
proof (rule consistent_by_key
    [where key = "\<lambda>s. (lowerLatin1 s, map caseBit s)"
       and lt = "\<lambda>x y. str_lt (fst x) (fst y) \<or> (fst x = fst y \<and> str_lt (snd x) (snd y))"])
  fix a b :: jsstring
  show "collate a b
        = (if str_lt (fst (lowerLatin1 a, map caseBit a)) (fst (lowerLatin1 b, map caseBit b))
              \<or> (fst (lowerLatin1 a, map caseBit a) = fst (lowerLatin1 b, map caseBit b)
                 \<and> str_lt (snd (lowerLatin1 a, map caseBit a)) (snd (lowerLatin1 b, map caseBit b)))
           then - 1
           else if str_lt (fst (lowerLatin1 b, map caseBit b)) (fst (lowerLatin1 a, map caseBit a))
              \<or> (fst (lowerLatin1 b, map caseBit b) = fst (lowerLatin1 a, map caseBit a)
                 \<and> str_lt (snd (lowerLatin1 b, map caseBit b)) (snd (lowerLatin1 a, map caseBit a)))
           then 1 else 0)"
    using str_lt_total [of "lowerLatin1 a" "lowerLatin1 b"]
      str_lt_asym [of "lowerLatin1 a" "lowerLatin1 b"] str_lt_irrefl [of "lowerLatin1 a"]
      str_lt_asym [of "map caseBit a" "map caseBit b"]
    by (auto simp: collate_def)
next
  fix x :: "jsstring \<times> jsstring"
  show "\<not> (str_lt (fst x) (fst x) \<or> (fst x = fst x \<and> str_lt (snd x) (snd x)))"
    by (simp add: str_lt_irrefl)
next
  fix x y z :: "jsstring \<times> jsstring"
  assume "str_lt (fst x) (fst y) \<or> (fst x = fst y \<and> str_lt (snd x) (snd y))"
    and "str_lt (fst y) (fst z) \<or> (fst y = fst z \<and> str_lt (snd y) (snd z))"
  then show "str_lt (fst x) (fst z) \<or> (fst x = fst z \<and> str_lt (snd x) (snd z))"
    using str_lt_trans [of "fst x" "fst y" "fst z"] str_lt_trans [of "snd x" "snd y" "snd z"]
    by auto
next
  fix x y :: "jsstring \<times> jsstring"
  show "(str_lt (fst x) (fst y) \<or> (fst x = fst y \<and> str_lt (snd x) (snd y)))
        \<or> x = y
        \<or> (str_lt (fst y) (fst x) \<or> (fst y = fst x \<and> str_lt (snd y) (snd x)))"
    using str_lt_total [of "fst x" "fst y"] str_lt_total [of "snd x" "snd y"]
    by (auto simp: prod_eq_iff)
qed

text \<open>
  Claim C5, as the specification has it, fails on the code: the tag selector sorts by the
  collation of the host, not by the order of code units. A post with the tags
  \<open>Whitening\<close> and \<open>veneers\<close> gives \<open>all\<close>, \<open>veneers\<close>, \<open>Whitening\<close>, and
  \<open>Whitening\<close> is the smaller string in the order of code units.
\<close>

theorem Blog_tags_not_lexicographic:
  "Blog_tags collate
     [\<lparr>slug = str ''care'', title = [], date = str ''2025-01-01'', readTime = [],
       excerpt = [], tags = [str ''Whitening'', str ''veneers''], content = []\<rparr>]
   = [str ''all'', str ''veneers'', str ''Whitening'']
   \<and> \<not> sorted_lexicographically [str ''veneers'', str ''Whitening'']"
  by (simp add: Blog_tags_def set_add_def sort_js_def collate_def lowerLatin1_def lowerUnit_def
      caseBit_def sorted_lexicographically_def str_def)

text \<open>
  Claim C5, amended. For every list of posts the tag selector lists \<open>all\<close> first and
  after it every tag of every post, each once, in the order of the collation of the host,
  which is any consistent comparison function: no tag is followed by one that the collation
  puts before it. Where the collation agrees with the order of code units on the tags
  present, as it does on the tags of the site, the tags are sorted lexicographically.
\<close>

theorem Blog_tags_collated:
  assumes "consistent localeCompare"
  shows "\<exists>ts. Blog_tags localeCompare items = str ''all'' # ts
           \<and> set ts = (\<Union>p\<in>set items. set (tags p))
           \<and> distinct ts
           \<and> sorted_wrt (\<lambda>a b. localeCompare a b \<le> 0) ts
           \<and> ((\<forall>a\<in>set ts. \<forall>b\<in>set ts. (localeCompare a b < 0) = str_lt a b)
                \<longrightarrow> sorted_lexicographically ts)"
proof -
  define t where "t = foldl (\<lambda>t p. foldl set_add t (tags p)) [] items"
  define ts where "ts = sort_js localeCompare t"
  have s: "set ts = (\<Union>p\<in>set items. set (tags p))"
    by (simp add: ts_def set_sort_js t_def set_collect_tags)
  have "distinct t"
    unfolding t_def by (rule distinct_collect_tags) simp
  then have d: "distinct ts"
    unfolding ts_def using mset_eq_imp_distinct_iff [OF mset_sort_js [of localeCompare t]] by simp
  have o: "sorted_wrt (\<lambda>a b. localeCompare a b \<le> 0) ts"
    unfolding ts_def by (rule sorted_wrt_sort_js [OF consistent_orders [OF assms]])
  have l: "sorted_lexicographically ts"
    if agree: "\<forall>a\<in>set ts. \<forall>b\<in>set ts. (localeCompare a b < 0) = str_lt a b"
  proof -
    have "\<not> str_lt b a" if "a \<in> set ts" "b \<in> set ts" "localeCompare a b \<le> 0" for a b
    proof
      assume "str_lt b a"
      then have "localeCompare b a < 0" using agree that by blast
      then have "localeCompare a b > 0" by (rule consistent_flip_less [OF assms])
      with that(3) show False by simp
    qed
    then show ?thesis
      unfolding sorted_lexicographically_def
      using sorted_wrt_mono_rel [OF _ o, of "\<lambda>a b. \<not> str_lt b a"] by blast
  qed
  have "Blog_tags localeCompare items = str ''all'' # ts"
    by (simp add: Blog_tags_def t_def ts_def)
  with s d o l show ?thesis by blast
qed

theorem Blog_tags_collated_witness:
  "consistent collate
   \<and> Blog_tags collate BLOG_POSTS
     = [str ''all'', str ''Aftercare'', str ''Bonding'', str ''Cosmetic'', str ''Orthodontics'',
        str ''Planning'', str ''Smile Design'', str ''Whitening'']
   \<and> sorted_lexicographically
       [str ''Aftercare'', str ''Bonding'', str ''Cosmetic'', str ''Orthodontics'',
        str ''Planning'', str ''Smile Design'', str ''Whitening'']"
proof -
  let ?ts = "[str ''Aftercare'', str ''Bonding'', str ''Cosmetic'', str ''Orthodontics'',
        str ''Planning'', str ''Smile Design'', str ''Whitening'']"
  have run: "Blog_tags collate BLOG_POSTS = str ''all'' # ?ts"
    by (simp add: Blog_tags_def BLOG_POSTS_def str_def set_add_def sort_js_def insertPivot_def
        collate_def lowerLatin1_def lowerUnit_def caseBit_def binarySearch.simps)
  have agree: "\<forall>a\<in>set ?ts. \<forall>b\<in>set ?ts. (collate a b < 0) = str_lt a b"
    by (simp add: str_def collate_def lowerLatin1_def lowerUnit_def caseBit_def)
  from Blog_tags_collated [OF collate_consistent, of BLOG_POSTS]
  obtain ts where "Blog_tags collate BLOG_POSTS = str ''all'' # ts"
    and "(\<forall>a\<in>set ts. \<forall>b\<in>set ts. (collate a b < 0) = str_lt a b)
         \<longrightarrow> sorted_lexicographically ts"
    by blast
  then have "sorted_lexicographically ?ts"
    using run agree by simp
  then show ?thesis
    using collate_consistent run by simp
qed


section \<open>Properties of the contact form\<close>

subsection \<open>The e-mail pattern\<close>

lemma matchHere_One:
  "matchHere (One a # rest) s \<longleftrightarrow> (\<exists>c y. s = c # y \<and> atom_ok a c \<and> matchHere rest y)"
  by (cases s) auto

lemma matchHere_OneOrMore:
  "matchHere (OneOrMore a # rest) s \<longleftrightarrow>
     (\<exists>x y. s = x @ y \<and> x \<noteq> [] \<and> (\<forall>c\<in>set x. atom_ok a c) \<and> matchHere rest y)"
proof (induction s)
  case Nil
  then show ?case by simp
next
  case (Cons c cs)
  show ?case
  proof
    assume "matchHere (OneOrMore a # rest) (c # cs)"
    then have ok: "atom_ok a c"
      and more: "matchHere (OneOrMore a # rest) cs \<or> matchHere rest cs"
      by simp_all
    from more show "\<exists>x y. c # cs = x @ y \<and> x \<noteq> [] \<and> (\<forall>c\<in>set x. atom_ok a c) \<and> matchHere rest y"
    proof
      assume "matchHere (OneOrMore a # rest) cs"
      then obtain x y where "cs = x @ y" "\<forall>c\<in>set x. atom_ok a c" "matchHere rest y"
        using Cons.IH by blast
      then have "c # cs = (c # x) @ y \<and> c # x \<noteq> [] \<and> (\<forall>c\<in>set (c # x). atom_ok a c)
                 \<and> matchHere rest y"
        using ok by simp
      then show ?thesis by blast
    next
      assume "matchHere rest cs"
      then have "c # cs = [c] @ cs \<and> [c] \<noteq> [] \<and> (\<forall>c\<in>set [c]. atom_ok a c) \<and> matchHere rest cs"
        using ok by simp
      then show ?thesis by blast
    qed
  next
    assume "\<exists>x y. c # cs = x @ y \<and> x \<noteq> [] \<and> (\<forall>c\<in>set x. atom_ok a c) \<and> matchHere rest y"
    then obtain x y where e: "c # cs = x @ y" and ne: "x \<noteq> []"
      and ok: "\<forall>c\<in>set x. atom_ok a c" and m: "matchHere rest y"
      by blast
    from ne obtain x' where x: "x = c # x'" and cs: "cs = x' @ y"
      using e by (cases x) auto
    have okc: "atom_ok a c" using ok x by simp
    show "matchHere (OneOrMore a # rest) (c # cs)"
    proof (cases "x' = []")
      case True
      then show ?thesis using okc m cs by simp
    next
      case False
      then have "matchHere (OneOrMore a # rest) cs"
        using Cons.IH cs ok x m by auto
      then show ?thesis using okc by simp
    qed
  qed
qed

lemma regex_test_iff:
  "regex_test pat s \<longleftrightarrow> (\<exists>pre y. s = pre @ y \<and> matchHere pat y)"
proof (induction s)
  case Nil
  then show ?case by simp
next
  case (Cons c cs)
  have "(\<exists>pre y. c # cs = pre @ y \<and> matchHere pat y)
        \<longleftrightarrow> matchHere pat (c # cs) \<or> (\<exists>pre y. cs = pre @ y \<and> matchHere pat y)"
  proof
    assume "\<exists>pre y. c # cs = pre @ y \<and> matchHere pat y"
    then obtain pre y where e: "c # cs = pre @ y" and m: "matchHere pat y" by blast
    show "matchHere pat (c # cs) \<or> (\<exists>pre y. cs = pre @ y \<and> matchHere pat y)"
    proof (cases pre)
      case Nil
      with e m show ?thesis by simp
    next
      case (Cons a pre')
      with e have "cs = pre' @ y" by simp
      with m show ?thesis by blast
    qed
  next
    assume "matchHere pat (c # cs) \<or> (\<exists>pre y. cs = pre @ y \<and> matchHere pat y)"
    then show "\<exists>pre y. c # cs = pre @ y \<and> matchHere pat y"
    proof
      assume "matchHere pat (c # cs)"
      then have "c # cs = [] @ (c # cs) \<and> matchHere pat (c # cs)" by simp
      then show ?thesis by blast
    next
      assume "\<exists>pre y. cs = pre @ y \<and> matchHere pat y"
      then obtain pre y where "c # cs = (c # pre) @ y \<and> matchHere pat y" by auto
      then show ?thesis by blast
    qed
  qed
  then show ?case using Cons.IH by simp
qed

lemma matchHere_emailPattern:
  "matchHere emailPattern y \<longleftrightarrow>
     (\<exists>a b c post. y = a @ [64] @ b @ [46] @ c @ post
        \<and> a \<noteq> [] \<and> b \<noteq> [] \<and> c \<noteq> []
        \<and> (\<forall>u\<in>set (a @ b @ c). \<not> isLineTerminator u))"
proof
  assume "matchHere emailPattern y"
  then obtain a y1 where 1: "y = a @ y1" "a \<noteq> []" "\<forall>u\<in>set a. atom_ok AnyChar u"
    and m1: "matchHere [One (Lit 64), OneOrMore AnyChar, One (Lit 46), OneOrMore AnyChar] y1"
    unfolding emailPattern_def matchHere_OneOrMore [of AnyChar _ y] by blast
  from m1 obtain y2 where 2: "y1 = 64 # y2"
    and m2: "matchHere [OneOrMore AnyChar, One (Lit 46), OneOrMore AnyChar] y2"
    unfolding matchHere_One [of "Lit 64" _ y1] by auto
  from m2 obtain b y3 where 3: "y2 = b @ y3" "b \<noteq> []" "\<forall>u\<in>set b. atom_ok AnyChar u"
    and m3: "matchHere [One (Lit 46), OneOrMore AnyChar] y3"
    unfolding matchHere_OneOrMore [of AnyChar _ y2] by blast
  from m3 obtain y4 where 4: "y3 = 46 # y4"
    and m4: "matchHere [OneOrMore AnyChar] y4"
    unfolding matchHere_One [of "Lit 46" _ y3] by auto
  from m4 obtain c post where 5: "y4 = c @ post" "c \<noteq> []" "\<forall>u\<in>set c. atom_ok AnyChar u"
    unfolding matchHere_OneOrMore [of AnyChar _ y4] by blast
  have "y = a @ [64] @ b @ [46] @ c @ post"
    using 1 2 3 4 5 by simp
  moreover have "\<forall>u\<in>set (a @ b @ c). \<not> isLineTerminator u"
    using 1 3 5 by auto
  ultimately show "\<exists>a b c post. y = a @ [64] @ b @ [46] @ c @ post
        \<and> a \<noteq> [] \<and> b \<noteq> [] \<and> c \<noteq> []
        \<and> (\<forall>u\<in>set (a @ b @ c). \<not> isLineTerminator u)"
    using 1 3 5 by blast
next
  assume "\<exists>a b c post. y = a @ [64] @ b @ [46] @ c @ post
        \<and> a \<noteq> [] \<and> b \<noteq> [] \<and> c \<noteq> []
        \<and> (\<forall>u\<in>set (a @ b @ c). \<not> isLineTerminator u)"
  then obtain a b c post where y: "y = a @ [64] @ b @ [46] @ c @ post"
    and ne: "a \<noteq> []" "b \<noteq> []" "c \<noteq> []"
    and ok: "\<forall>u\<in>set a. atom_ok AnyChar u" "\<forall>u\<in>set b. atom_ok AnyChar u"
      "\<forall>u\<in>set c. atom_ok AnyChar u"
    by auto
  have m4: "matchHere [OneOrMore AnyChar] (c @ post)"
    unfolding matchHere_OneOrMore [of AnyChar _ "c @ post"] using ne ok by auto
  then have m3: "matchHere [One (Lit 46), OneOrMore AnyChar] (46 # c @ post)"
    by simp
  have m2: "matchHere [OneOrMore AnyChar, One (Lit 46), OneOrMore AnyChar] (b @ 46 # c @ post)"
    unfolding matchHere_OneOrMore [of AnyChar _ "b @ 46 # c @ post"] using ne ok m3 by blast
  then have m1: "matchHere [One (Lit 64), OneOrMore AnyChar, One (Lit 46), OneOrMore AnyChar]
                   (64 # b @ 46 # c @ post)"
    by simp
  have "matchHere emailPattern (a @ 64 # b @ 46 # c @ post)"
    unfolding emailPattern_def matchHere_OneOrMore [of AnyChar _ "a @ 64 # b @ 46 # c @ post"]
    using ne ok m1 by blast
  then show "matchHere emailPattern y" using y by simp
qed

lemma regex_test_emailPattern: "regex_test emailPattern s \<longleftrightarrow> text_at_text_dot_text s"
  unfolding regex_test_iff matchHere_emailPattern text_at_text_dot_text_def by blast

text \<open>
  Claim C7. The gate of the contact form is the conjunction of three tests on the trimmed
  fields: the name has at least two code units, the e-mail address has the shape
  "text@text.text", the message has at least ten code units; the telephone number plays no
  part. While the gate is closed the submit button is disabled, and the handler only
  prevents the default action of the event: the flag \<open>submitted\<close> and the address of the
  page stay as they were, and nothing is thrown.
\<close>

theorem contact_gate:
  "(isValid f \<longleftrightarrow>
      2 \<le> length (trim (name f))
      \<and> text_at_text_dot_text (trim (email f))
      \<and> 10 \<le> length (trim (message f)))
   \<and> isValid (f\<lparr>phone := ph\<rparr>) = isValid f
   \<and> submit_disabled st = (\<not> isValid (form st))
   \<and> (\<not> isValid (form st) \<longrightarrow>
        onSubmit encodeURIComponent e st = (Normal, e\<lparr>defaultPrevented := True\<rparr>, st))"
proof (intro conjI impI)
  show "isValid f \<longleftrightarrow>
      2 \<le> length (trim (name f))
      \<and> text_at_text_dot_text (trim (email f))
      \<and> 10 \<le> length (trim (message f))"
    by (simp add: isValid_def regex_test_emailPattern)
  show "isValid (f\<lparr>phone := ph\<rparr>) = isValid f"
    by (simp add: isValid_def)
  show "submit_disabled st = (\<not> isValid (form st))"
    by (simp add: submit_disabled_def)
next
  assume "\<not> isValid (form st)"
  then show "onSubmit encodeURIComponent e st = (Normal, e\<lparr>defaultPrevented := True\<rparr>, st)"
    by (simp add: onSubmit_def Let_def)
qed

theorem contact_gate_witness:
  "\<not> isValid \<lparr>name = str ''Al'', email = str ''al.example.com'', phone = [],
              message = str ''Please call me back.''\<rparr>
   \<and> onSubmit (\<lambda>s. Some s) \<lparr>defaultPrevented = False\<rparr>
        \<lparr>form = \<lparr>name = str ''Al'', email = str ''al.example.com'', phone = [],
                  message = str ''Please call me back.''\<rparr>,
         submitted = False, href = str ''#/contact''\<rparr>
     = (Normal, \<lparr>defaultPrevented = True\<rparr>,
        \<lparr>form = \<lparr>name = str ''Al'', email = str ''al.example.com'', phone = [],
                  message = str ''Please call me back.''\<rparr>,
         submitted = False, href = str ''#/contact''\<rparr>)
   \<and> isValid \<lparr>name = str '' Al '', email = str ''al@example.com'', phone = [],
              message = str ''Please call me back.''\<rparr>
   \<and> text_at_text_dot_text (trim (str ''al@example.com''))"
proof -
  let ?bad = "\<lparr>name = str ''Al'', email = str ''al.example.com'', phone = [],
              message = str ''Please call me back.''\<rparr>"
  let ?good = "\<lparr>name = str '' Al '', email = str ''al@example.com'', phone = [],
              message = str ''Please call me back.''\<rparr>"
  let ?st = "\<lparr>form = ?bad, submitted = False, href = str ''#/contact''\<rparr>"
  have bad: "\<not> isValid ?bad"
    by (simp add: isValid_def str_def trim_def isWhiteSpace_def emailPattern_def
        isLineTerminator_def)
  have good: "isValid ?good"
    by (simp add: isValid_def str_def trim_def isWhiteSpace_def emailPattern_def
        isLineTerminator_def)
  have "\<not> isValid (form ?st)" using bad by simp
  then have "onSubmit (\<lambda>s. Some s) \<lparr>defaultPrevented = False\<rparr> ?st
             = (Normal, \<lparr>defaultPrevented = False\<rparr>\<lparr>defaultPrevented := True\<rparr>, ?st)"
    using contact_gate [of ?bad "[]" ?st "\<lambda>s. Some s" "\<lparr>defaultPrevented = False\<rparr>"] by blast
  moreover have "text_at_text_dot_text (trim (str ''al@example.com''))"
    using good contact_gate [of ?good "[]" ?st "\<lambda>s. Some s" "\<lparr>defaultPrevented = False\<rparr>"]
    by simp
  ultimately show ?thesis using bad good by simp
qed

end
